theory Spec2Isabelle
  imports Main "HOL-Library.AList" "HOL-Library.Sublist" "HOL-Library.Word"
begin

unbundle bit_operations_syntax

section \<open>Text as Python has it\<close>

text \<open>
  A Python \<^verbatim>\<open>str\<close> is a sequence of Unicode code points, and \<^verbatim>\<open>bytes\<close> a sequence of
  octets. Code points are natural numbers here, octets are 8-bit words. \<open>chars\<close> writes an
  ASCII literal of the source as a code point list.
\<close>

type_synonym codepoint = nat
type_synonym pystr = "codepoint list"
type_synonym byte = "8 word"

definition chars :: "string \<Rightarrow> pystr" where
  "chars s = map of_char s"

text \<open>
  \<^verbatim>\<open>str.isspace\<close> on one code point: the characters \<^verbatim>\<open>str.strip()\<close> removes.
\<close>

definition isspace :: "codepoint \<Rightarrow> bool" where
  "isspace c \<longleftrightarrow>
     (9 \<le> c \<and> c \<le> 13) \<or> (28 \<le> c \<and> c \<le> 32) \<or> c = 0x85 \<or> c = 0xA0 \<or> c = 0x1680 \<or>
     (0x2000 \<le> c \<and> c \<le> 0x200A) \<or> c = 0x2028 \<or> c = 0x2029 \<or> c = 0x202F \<or>
     c = 0x205F \<or> c = 0x3000"

text \<open>\<^verbatim>\<open>line.strip()\<close>: leading and trailing whitespace removed.\<close>

definition str_strip :: "pystr \<Rightarrow> pystr" where
  "str_strip s = rev (dropWhile isspace (rev (dropWhile isspace s)))"

text \<open>
  \<^verbatim>\<open>line.split(':')\<close> with a one-character separator: one more field than there are
  separators, empty fields kept.
\<close>

fun str_split :: "codepoint \<Rightarrow> pystr \<Rightarrow> pystr list" where
  "str_split sep [] = [[]]"
| "str_split sep (c # cs) =
     (if c = sep then [] # str_split sep cs
      else (case str_split sep cs of
              [] \<Rightarrow> [[c]]
            | p # ps \<Rightarrow> (c # p) # ps))"

subsection \<open>The conversion \<^verbatim>\<open>int(s)\<close>\<close>

text \<open>
  The first code point of each run of ten decimal digits (general category Nd) of the
  Unicode database that CPython 3.11 carries (Unicode 14.0); \<^verbatim>\<open>int\<close> reads all of them.
\<close>

definition decimal_zeros :: "codepoint list" where
  "decimal_zeros =
     [0x30, 0x660, 0x6F0, 0x7C0, 0x966, 0x9E6, 0xA66, 0xAE6, 0xB66, 0xBE6, 0xC66, 0xCE6,
      0xD66, 0xDE6, 0xE50, 0xED0, 0xF20, 0x1040, 0x1090, 0x17E0, 0x1810, 0x1946, 0x19D0,
      0x1A80, 0x1A90, 0x1B50, 0x1BB0, 0x1C40, 0x1C50, 0xA620, 0xA8D0, 0xA900, 0xA9D0,
      0xA9F0, 0xAA50, 0xABF0, 0xFF10, 0x104A0, 0x10D30, 0x11066, 0x110F0, 0x11136,
      0x111D0, 0x112F0, 0x11450, 0x114D0, 0x11650, 0x116C0, 0x11730, 0x118E0, 0x11950,
      0x11C50, 0x11D50, 0x11DA0, 0x16A60, 0x16AC0, 0x16B50, 0x1D7CE, 0x1D7D8, 0x1D7E2,
      0x1D7EC, 0x1D7F6, 0x1E140, 0x1E2F0, 0x1E950, 0x1FBF0]"

definition to_decimal :: "codepoint \<Rightarrow> nat option" where
  "to_decimal c =
     (case find (\<lambda>z. z \<le> c \<and> c < z + 10) decimal_zeros of
        None \<Rightarrow> None
      | Some z \<Rightarrow> Some (c - z))"

text \<open>
  Whitespace as \<^verbatim>\<open>int\<close> skips it around the number: the ASCII set of C's \<^verbatim>\<open>isspace\<close>, and
  every whitespace character beyond ASCII. The separators U+001C to U+001F, which
  \<^verbatim>\<open>strip\<close> removes, are not in it.
\<close>

definition int_space :: "codepoint \<Rightarrow> bool" where
  "int_space c \<longleftrightarrow> (9 \<le> c \<and> c \<le> 13) \<or> c = 32 \<or> (128 \<le> c \<and> isspace c)"

definition underscore :: codepoint where
  "underscore = 0x5F"

definition in_number :: "codepoint \<Rightarrow> bool" where
  "in_number c \<longleftrightarrow> c = underscore \<or> to_decimal c \<noteq> None"

text \<open>
  Underscores may only stand singly between two digits.
\<close>

fun grouped :: "codepoint list \<Rightarrow> bool" where
  "grouped [] = False"
| "grouped [c] = (c \<noteq> underscore)"
| "grouped (c # d # cs) =
     (c \<noteq> underscore \<and> (if d = underscore then cs \<noteq> [] \<and> grouped cs else grouped (d # cs)))"

text \<open>The default of \<^verbatim>\<open>sys.int_max_str_digits\<close>: longer numbers are a \<^verbatim>\<open>ValueError\<close>.\<close>

definition int_max_str_digits :: nat where
  "int_max_str_digits = 4300"

text \<open>
  \<^verbatim>\<open>int(s)\<close> in base ten: whitespace, an optional sign, digits grouped by single
  underscores, whitespace. \<open>None\<close> is the \<^verbatim>\<open>ValueError\<close>.
\<close>

definition py_int :: "pystr \<Rightarrow> int option" where
  "py_int s =
     (let s1 = dropWhile int_space s;
          neg = (s1 \<noteq> [] \<and> hd s1 = of_char CHR ''-'');
          s2 = (if s1 \<noteq> [] \<and> (hd s1 = of_char CHR ''+'' \<or> hd s1 = of_char CHR ''-'')
                then tl s1 else s1);
          body = takeWhile in_number s2;
          rest = dropWhile in_number s2;
          digits = List.map_filter to_decimal body
      in if grouped body \<and> length digits \<le> int_max_str_digits \<and> dropWhile int_space rest = []
         then Some ((if neg then - 1 else 1) * int (foldl (\<lambda>a d. 10 * a + d) 0 digits))
         else None)"

section \<open>The bridge\<close>

text \<open>The table \<^verbatim>\<open>BUTTON_TO_KEY\<close>.\<close>

definition BUTTON_TO_KEY :: "pystr \<rightharpoonup> pystr" where
  "BUTTON_TO_KEY =
     map_of [(chars ''B1'', chars ''w''), (chars ''B2'', chars ''a''),
             (chars ''B3'', chars ''s''), (chars ''B4'', chars ''d'')]"

text \<open>
  The two calls made on the keyboard controller. The state of the bridge is the
  dictionary \<^verbatim>\<open>held_keys\<close>, kept in insertion order as Python keeps it, and the calls made
  on the controller so far, oldest first. Console output is not part of the state.
\<close>

datatype key_action = Press pystr | Release pystr

record bridge =
  held_keys :: "(pystr \<times> bool) list"
  keyboard :: "key_action list"

definition initial :: bridge where
  "initial = \<lparr>held_keys = [], keyboard = []\<rparr>"

text \<open>\<^verbatim>\<open>d.get(k, default)\<close>; \<^verbatim>\<open>d[k] = v\<close> is \<^const>\<open>AList.update\<close>.\<close>

definition dict_get :: "('k \<times> 'v) list \<Rightarrow> 'k \<Rightarrow> 'v \<Rightarrow> 'v" where
  "dict_get d k dflt = (case map_of d k of None \<Rightarrow> dflt | Some v \<Rightarrow> v)"

text \<open>
  Lines 61 to 64 of \<^verbatim>\<open>process_line\<close>: the pressed flag of the second field, \<open>None\<close> where
  \<^verbatim>\<open>int\<close> raises and the line is given up.
\<close>

definition decode_pressed :: "pystr \<Rightarrow> bool option" where
  "decode_pressed field = (case py_int field of None \<Rightarrow> None | Some n \<Rightarrow> Some (n = 1))"

definition process_line :: "pystr \<Rightarrow> bridge \<Rightarrow> bridge" where
  "process_line line0 st =
     (let line = str_strip line0 in
      if line = [] then st
      else (case str_split (of_char CHR '':'') line of
              [button_id, field] \<Rightarrow>
                (case decode_pressed field of
                   None \<Rightarrow> st
                 | Some pressed \<Rightarrow>
                     (case BUTTON_TO_KEY button_id of
                        None \<Rightarrow> st
                      | Some key_char \<Rightarrow>
                          if key_char = [] then st
                          else let already_held = dict_get (held_keys st) button_id False in
                            if pressed \<and> \<not> already_held then
                              st\<lparr>keyboard := keyboard st @ [Press key_char],
                                 held_keys := AList.update button_id True (held_keys st)\<rparr>
                            else if \<not> pressed \<and> already_held then
                              st\<lparr>keyboard := keyboard st @ [Release key_char],
                                 held_keys := AList.update button_id False (held_keys st)\<rparr>
                            else st))
            | _ \<Rightarrow> st))"

text \<open>Lines handed to \<^verbatim>\<open>process_line\<close> one after the other.\<close>

definition process_lines :: "pystr list \<Rightarrow> bridge \<Rightarrow> bridge" where
  "process_lines ls st = foldl (\<lambda>s l. process_line l s) st ls"

section \<open>Decoding the bytes read\<close>

text \<open>
  \<^verbatim>\<open>raw.decode('utf-8', errors=...)\<close>. The decoder looks at the first byte and at up to
  three continuation bytes after it. It either yields a code point and consumes that many
  further bytes, or it finds a malformed range, the first byte and that many further
  bytes: an invalid start byte (none), a sequence cut off by an invalid byte (the valid
  bytes before it), or a sequence cut off by the end of the data (all that is left).
\<close>

datatype exn = KeyboardInterrupt | SerialException | UnicodeDecodeError

datatype errors = Strict | Ignore

datatype utf8_step = Decoded codepoint nat | Malformed nat

definition continuation :: "byte \<Rightarrow> bool" where
  "continuation b \<longleftrightarrow> 0x80 \<le> b \<and> b < 0xC0"

definition low6 :: "byte \<Rightarrow> nat" where
  "low6 b = unat (b AND 0x3F)"

definition utf8_first :: "byte \<Rightarrow> byte list \<Rightarrow> utf8_step" where
  "utf8_first ch bs =
     (if ch < 0x80 then Decoded (unat ch) 0
      else if ch < 0xC2 then Malformed 0
      else if ch < 0xE0 then
        (case bs of
           [] \<Rightarrow> Malformed 0
         | ch2 # _ \<Rightarrow>
             if continuation ch2 then Decoded (unat (ch AND 0x1F) * 64 + low6 ch2) 1
             else Malformed 0)
      else if ch < 0xF0 then
        (case bs of
           [] \<Rightarrow> Malformed 0
         | ch2 # bs2 \<Rightarrow>
             if continuation ch2 \<and> (if ch2 < 0xA0 then ch \<noteq> 0xE0 else ch \<noteq> 0xED) then
               (case bs2 of
                  [] \<Rightarrow> Malformed 1
                | ch3 # _ \<Rightarrow>
                    if continuation ch3
                    then Decoded (unat (ch AND 0x0F) * 4096 + low6 ch2 * 64 + low6 ch3) 2
                    else Malformed 1)
             else Malformed 0)
      else if ch < 0xF5 then
        (case bs of
           [] \<Rightarrow> Malformed 0
         | ch2 # bs2 \<Rightarrow>
             if continuation ch2 \<and> (if ch2 < 0x90 then ch \<noteq> 0xF0 else ch \<noteq> 0xF4) then
               (case bs2 of
                  [] \<Rightarrow> Malformed 1
                | ch3 # bs3 \<Rightarrow>
                    if continuation ch3 then
                      (case bs3 of
                         [] \<Rightarrow> Malformed 2
                       | ch4 # _ \<Rightarrow>
                           if continuation ch4
                           then Decoded (unat (ch AND 0x07) * 262144 + low6 ch2 * 4096 +
                                         low6 ch3 * 64 + low6 ch4) 3
                           else Malformed 2)
                    else Malformed 1)
             else Malformed 0)
      else Malformed 0)"

text \<open>
  With \<^verbatim>\<open>errors='strict'\<close> a malformed range raises; with \<^verbatim>\<open>errors='ignore'\<close> it is skipped
  and decoding goes on behind it.
\<close>

fun decode_utf8 :: "errors \<Rightarrow> byte list \<Rightarrow> exn + pystr" where
  "decode_utf8 e [] = Inr []"
| "decode_utf8 e (ch # bs) =
     (case utf8_first ch bs of
        Decoded c k \<Rightarrow>
          (case decode_utf8 e (drop k bs) of
             Inl x \<Rightarrow> Inl x
           | Inr s \<Rightarrow> Inr (c # s))
      | Malformed k \<Rightarrow>
          (case e of
             Strict \<Rightarrow> Inl UnicodeDecodeError
           | Ignore \<Rightarrow> decode_utf8 e (drop k bs)))"

text \<open>The bytes of \<open>raw\<close> outside every malformed range, in their order.\<close>

fun well_formed_part :: "byte list \<Rightarrow> byte list" where
  "well_formed_part [] = []"
| "well_formed_part (ch # bs) =
     (case utf8_first ch bs of
        Decoded c k \<Rightarrow> ch # take k bs @ well_formed_part (drop k bs)
      | Malformed k \<Rightarrow> well_formed_part (drop k bs))"

section \<open>The program\<close>

subsection \<open>Port discovery\<close>

text \<open>
  The host as \<^verbatim>\<open>find_arduino_port\<close> sees it: what \<^verbatim>\<open>glob.glob\<close> returns for a pattern on the
  present filesystem, and the patterns scanned so far, oldest first.
\<close>

record host =
  glob :: "pystr \<Rightarrow> pystr list"
  scanned :: "pystr list"

definition glob_glob :: "pystr \<Rightarrow> host \<Rightarrow> pystr list \<times> host" where
  "glob_glob pattern h = (glob h pattern, h\<lparr>scanned := scanned h @ [pattern]\<rparr>)"

definition usbmodem :: pystr where
  "usbmodem = chars ''/dev/cu.usbmodem*''"

definition usbserial :: pystr where
  "usbserial = chars ''/dev/cu.usbserial*''"

definition find_arduino_port :: "host \<Rightarrow> pystr option \<times> host" where
  "find_arduino_port h =
     (case glob_glob usbmodem h of
        (c # _, h1) \<Rightarrow> (Some c, h1)
      | ([], h1) \<Rightarrow>
          (case glob_glob usbserial h1 of
             (c # _, h2) \<Rightarrow> (Some c, h2)
           | ([], h2) \<Rightarrow> (None, h2)))"

subsection \<open>The read loop and the cleanup\<close>

text \<open>
  What one turn of the loop meets in \<^verbatim>\<open>ser.readline()\<close>: the bytes returned (none when the
  read timed out), a \<^verbatim>\<open>KeyboardInterrupt\<close>, or a \<^verbatim>\<open>SerialException\<close> of the connection.
  The interrupt is taken where the loop waits, in the read; the calls on the keyboard
  controller and \<^verbatim>\<open>ser.close()\<close> are taken to succeed.
\<close>

datatype read_event = Read "byte list" | Interrupt | ReadFailure

text \<open>Lines 103 to 106: the body of the loop behind the read.\<close>

definition loop_body :: "byte list \<Rightarrow> bridge \<Rightarrow> exn + bridge" where
  "loop_body raw st =
     (if raw \<noteq> [] then
        (case decode_utf8 Ignore raw of
           Inl x \<Rightarrow> Inl x
         | Inr decoded \<Rightarrow>
             let line = str_strip decoded in
             if line \<noteq> [] then Inr (process_line line st) else Inr st)
      else Inr st)"

text \<open>
  \<^verbatim>\<open>while True\<close> over the events that arrive. The loop has no exit of its own: it ends
  with an exception, and when the events run out it is still reading.
\<close>

datatype loop_end = Raised exn bridge | Reading bridge

fun read_loop :: "read_event list \<Rightarrow> bridge \<Rightarrow> loop_end" where
  "read_loop [] st = Reading st"
| "read_loop (Read raw # evs) st =
     (case loop_body raw st of
        Inl x \<Rightarrow> Raised x st
      | Inr st' \<Rightarrow> read_loop evs st')"
| "read_loop (Interrupt # evs) st = Raised KeyboardInterrupt st"
| "read_loop (ReadFailure # evs) st = Raised SerialException st"

text \<open>Lines 111 to 115, the \<^verbatim>\<open>finally\<close> clause: one turn of its loop, and the loop.\<close>

definition release_if_held :: "key_action list \<Rightarrow> pystr \<times> bool \<Rightarrow> key_action list" where
  "release_if_held kb item =
     (case item of (button_id, is_held) \<Rightarrow>
        if is_held then
          (case BUTTON_TO_KEY button_id of
             None \<Rightarrow> kb
           | Some key_char \<Rightarrow> if key_char \<noteq> [] then kb @ [Release key_char] else kb)
        else kb)"

definition cleanup :: "bridge \<Rightarrow> bridge" where
  "cleanup st = st\<lparr>keyboard := foldl release_if_held (keyboard st) (held_keys st)\<rparr>"

subsection \<open>\<^verbatim>\<open>main\<close>\<close>

text \<open>
  The surroundings of one run: the host, whether \<^verbatim>\<open>serial.Serial\<close> opens a path, and the
  events the loop meets. The process exits with a status, or is still in its loop. An
  exception that \<^verbatim>\<open>main\<close> does not catch ends the interpreter with status 1, after the
  \<^verbatim>\<open>finally\<close> clause has run. \<^verbatim>\<open>if not port_path\<close> also turns an empty path away.
\<close>

record surroundings =
  filesystem :: host
  opens :: "pystr \<Rightarrow> bool"
  incoming :: "read_event list"

datatype outcome = Exit int bridge | Running bridge

definition main :: "surroundings \<Rightarrow> outcome" where
  "main env =
     (case find_arduino_port (filesystem env) of
        (None, _) \<Rightarrow> Exit 1 initial
      | (Some port_path, _) \<Rightarrow>
          if port_path = [] then Exit 1 initial
          else if \<not> opens env port_path then Exit 1 initial
          else (case read_loop (incoming env) initial of
                  Reading st \<Rightarrow> Running st
                | Raised x st \<Rightarrow>
                    (case x of
                       KeyboardInterrupt \<Rightarrow> Exit 0 (cleanup st)
                     | _ \<Rightarrow> Exit 1 (cleanup st))))"

section \<open>The invariant of the held state\<close>

text \<open>
  What every state the program reaches satisfies: each button stands once in
  \<^verbatim>\<open>held_keys\<close>, and only buttons of the table stand there.
\<close>

definition tracked :: "bridge \<Rightarrow> bool" where
  "tracked st \<longleftrightarrow>
     distinct (map fst (held_keys st)) \<and> fst ` set (held_keys st) \<subseteq> dom BUTTON_TO_KEY"

section \<open>Facts about the text operations\<close>

lemma to_decimal_digit0: "to_decimal 48 = Some 0"
  by (simp add: to_decimal_def decimal_zeros_def)

lemma to_decimal_digit1: "to_decimal 49 = Some 1"
  by (simp add: to_decimal_def decimal_zeros_def)

lemma py_int_one: "py_int [49] = Some 1"
  by (simp add: py_int_def int_space_def isspace_def in_number_def underscore_def
      to_decimal_digit1 int_max_str_digits_def)

lemma py_int_zero: "py_int [48] = Some 0"
  by (simp add: py_int_def int_space_def isspace_def in_number_def underscore_def
      to_decimal_digit0 int_max_str_digits_def)

lemma str_split_nosep: "sep \<notin> set f \<Longrightarrow> str_split sep f = [f]"
  by (induction f) auto

lemma str_split_two:
  "sep \<notin> set b \<Longrightarrow> sep \<notin> set f \<Longrightarrow> str_split sep (b @ sep # f) = [b, f]"
  by (induction b) (auto simp: str_split_nosep)

lemma str_split_not_Nil: "str_split sep s \<noteq> []"
proof (induction s)
  case Nil
  show ?case by simp
next
  case (Cons c cs)
  then show ?case by (cases "str_split sep cs") auto
qed

lemma str_split_single: "str_split sep s = [f] \<Longrightarrow> s = f \<and> sep \<notin> set f"
  by (induction s arbitrary: f) (auto simp: str_split_not_Nil split: if_splits list.splits)

lemma str_split_pair:
  "str_split sep s = [b, f] \<Longrightarrow> s = b @ sep # f \<and> sep \<notin> set b \<and> sep \<notin> set f"
proof (induction s arbitrary: b)
  case Nil
  then show ?case by simp
next
  case (Cons c cs)
  show ?case
  proof (cases "c = sep")
    case True
    with Cons.prems have "b = []" and "str_split sep cs = [f]" by auto
    with True str_split_single[of sep cs f] show ?thesis by simp
  next
    case False
    with Cons.prems obtain p where b: "b = c # p" and "str_split sep cs = [p, f]"
      by (auto split: list.splits)
    with Cons.IH[of p] False show ?thesis by simp
  qed
qed

lemma dropWhile_id: "xs \<noteq> [] \<Longrightarrow> \<not> P (hd xs) \<Longrightarrow> dropWhile P xs = xs"
  by (cases xs) auto

lemma str_strip_id:
  assumes "s \<noteq> []" "\<not> isspace (hd s)" "\<not> isspace (last s)"
  shows "str_strip s = s"
proof -
  have "dropWhile isspace (rev s) = rev s"
    using assms by (intro dropWhile_id) (simp_all add: hd_rev)
  with assms show ?thesis by (simp add: str_strip_def dropWhile_id)
qed

lemma strip_ends:
  assumes "rev (dropWhile P (rev (dropWhile P s))) \<noteq> []"
  shows "\<not> P (hd (rev (dropWhile P (rev (dropWhile P s))))) \<and>
         \<not> P (last (rev (dropWhile P (rev (dropWhile P s)))))"
proof -
  define u where "u = dropWhile P s"
  define t where "t = dropWhile P (rev u)"
  have t: "t \<noteq> []" using assms by (simp add: t_def u_def)
  have u: "u \<noteq> []"
  proof
    assume "u = []"
    then have "t = []" by (simp add: t_def)
    with t show False by contradiction
  qed
  have 1: "\<not> P (hd t)" using t unfolding t_def by (rule hd_dropWhile)
  have 2: "\<not> P (hd u)" using u unfolding u_def by (rule hd_dropWhile)
  have "rev u = takeWhile P (rev u) @ t" by (simp add: t_def)
  then have "last (rev u) = last (takeWhile P (rev u) @ t)" by simp
  also have "\<dots> = last t" using t by (rule last_appendR)
  finally have 3: "last t = hd u" using u by (simp add: last_rev)
  have "hd (rev t) = last t" and "last (rev t) = hd t" using t by (simp_all add: hd_rev last_rev)
  with 1 2 3 show ?thesis by (simp add: t_def u_def)
qed

lemma str_strip_ends:
  "str_strip s \<noteq> [] \<Longrightarrow> \<not> isspace (hd (str_strip s)) \<and> \<not> isspace (last (str_strip s))"
  unfolding str_strip_def by (rule strip_ends)

section \<open>Facts about the table and the tracker\<close>

lemma BUTTON_TO_KEY_cases:
  "BUTTON_TO_KEY b = Some k \<Longrightarrow>
     (b, k) \<in> {([66, 49], [119]), ([66, 50], [97]), ([66, 51], [115]), ([66, 52], [100])}"
  by (simp add: BUTTON_TO_KEY_def chars_def split: if_splits)

lemma BUTTON_TO_KEY_shape:
  assumes "BUTTON_TO_KEY b = Some k"
  shows "58 \<notin> set b" and "b \<noteq> []" and "\<not> isspace (hd b)" and "k \<noteq> []"
  using BUTTON_TO_KEY_cases[OF assms] by (auto simp: isspace_def)

lemma BUTTON_TO_KEY_inj:
  "BUTTON_TO_KEY b = Some k \<Longrightarrow> BUTTON_TO_KEY b' = Some k \<Longrightarrow> b = b'"
  by (drule BUTTON_TO_KEY_cases)+ auto

lemma process_line_fields:
  assumes "str_strip line = b @ 58 # f" "58 \<notin> set b" "58 \<notin> set f"
  shows "process_line line st =
    (case decode_pressed f of
       None \<Rightarrow> st
     | Some pressed \<Rightarrow>
        (case BUTTON_TO_KEY b of
           None \<Rightarrow> st
         | Some key_char \<Rightarrow>
            if key_char = [] then st
            else if pressed \<and> \<not> dict_get (held_keys st) b False then
                st\<lparr>keyboard := keyboard st @ [Press key_char],
                   held_keys := AList.update b True (held_keys st)\<rparr>
            else if \<not> pressed \<and> dict_get (held_keys st) b False then
                st\<lparr>keyboard := keyboard st @ [Release key_char],
                   held_keys := AList.update b False (held_keys st)\<rparr>
            else st))"
  using assms by (simp add: process_line_def str_split_two Let_def split: option.splits)

lemma str_strip_button_line:
  assumes "BUTTON_TO_KEY b = Some k" "\<not> isspace d"
  shows "str_strip (b @ [58, d]) = b @ [58, d]"
  using BUTTON_TO_KEY_shape[OF assms(1)] assms(2) by (intro str_strip_id) simp_all

lemma process_line_down:
  assumes "BUTTON_TO_KEY b = Some k"
  shows "process_line (b @ chars '':1'') st =
     (if dict_get (held_keys st) b False then st
      else st\<lparr>keyboard := keyboard st @ [Press k],
              held_keys := AList.update b True (held_keys st)\<rparr>)"
proof -
  have s: "str_strip (b @ chars '':1'') = b @ 58 # [49]"
    using str_strip_button_line[OF assms, of 49] by (simp add: chars_def isspace_def)
  show ?thesis
    using assms BUTTON_TO_KEY_shape[OF assms]
    by (simp add: process_line_fields[OF s] decode_pressed_def py_int_one)
qed

lemma process_line_up:
  assumes "BUTTON_TO_KEY b = Some k"
  shows "process_line (b @ chars '':0'') st =
     (if dict_get (held_keys st) b False then
        st\<lparr>keyboard := keyboard st @ [Release k],
           held_keys := AList.update b False (held_keys st)\<rparr>
      else st)"
proof -
  have s: "str_strip (b @ chars '':0'') = b @ 58 # [48]"
    using str_strip_button_line[OF assms, of 48] by (simp add: chars_def isspace_def)
  show ?thesis
    using assms BUTTON_TO_KEY_shape[OF assms]
    by (simp add: process_line_fields[OF s] decode_pressed_def py_int_zero)
qed

lemma dict_get_update: "dict_get (AList.update k v d) k' dflt = (if k' = k then v else dict_get d k' dflt)"
  by (simp add: dict_get_def update_conv')

lemma BUTTON_TO_KEY_B1: "BUTTON_TO_KEY (chars ''B1'') = Some (chars ''w'')"
  and BUTTON_TO_KEY_B2: "BUTTON_TO_KEY (chars ''B2'') = Some (chars ''a'')"
  and BUTTON_TO_KEY_B3: "BUTTON_TO_KEY (chars ''B3'') = Some (chars ''s'')"
  and BUTTON_TO_KEY_B4: "BUTTON_TO_KEY (chars ''B4'') = Some (chars ''d'')"
  by (simp_all add: BUTTON_TO_KEY_def chars_def)

lemma dict_get_Nil: "dict_get [] k dflt = dflt"
  by (simp add: dict_get_def)

lemma dict_get_Cons: "dict_get ((k', v) # d) k dflt = (if k = k' then v else dict_get d k dflt)"
  by (simp add: dict_get_def)

text \<open>
  Claim C5. From the empty held state, the lines \<^verbatim>\<open>B1:1\<close>, \<^verbatim>\<open>B1:1\<close>, \<^verbatim>\<open>B3:1\<close>, \<^verbatim>\<open>B1:0\<close>, \<^verbatim>\<open>B3:0\<close>
  processed in this order make exactly four calls on the keyboard: press \<^verbatim>\<open>w\<close>, press \<^verbatim>\<open>s\<close>,
  release \<^verbatim>\<open>w\<close>, release \<^verbatim>\<open>s\<close>.
\<close>

theorem end_to_end_sequence:
  "keyboard (process_lines (map chars [''B1:1'', ''B1:1'', ''B3:1'', ''B1:0'', ''B3:0'']) initial)
     = [Press (chars ''w''), Press (chars ''s''), Release (chars ''w''), Release (chars ''s'')]"
proof -
  have l: "chars ''B1:1'' = chars ''B1'' @ chars '':1''" "chars ''B3:1'' = chars ''B3'' @ chars '':1''"
    "chars ''B1:0'' = chars ''B1'' @ chars '':0''" "chars ''B3:0'' = chars ''B3'' @ chars '':0''"
    by (simp_all add: chars_def)
  have n: "chars ''B1'' \<noteq> chars ''B3''" by (simp add: chars_def)
  note down = process_line_down[OF BUTTON_TO_KEY_B1] process_line_down[OF BUTTON_TO_KEY_B3]
  note up = process_line_up[OF BUTTON_TO_KEY_B1] process_line_up[OF BUTTON_TO_KEY_B3]
  show ?thesis
    using n by (simp add: process_lines_def l down up dict_get_update dict_get_Nil dict_get_Cons initial_def)
qed

lemma process_line_cases:
  "process_line line st = st \<or>
   (\<exists>b k. BUTTON_TO_KEY b = Some k \<and>
      ((\<not> dict_get (held_keys st) b False \<and>
          process_line line st =
            st\<lparr>keyboard := keyboard st @ [Press k],
               held_keys := AList.update b True (held_keys st)\<rparr>) \<or>
       (dict_get (held_keys st) b False \<and>
          process_line line st =
            st\<lparr>keyboard := keyboard st @ [Release k],
               held_keys := AList.update b False (held_keys st)\<rparr>)))"
  by (auto simp: process_line_def Let_def split: list.splits option.splits)

text \<open>
  Claim C2. The tracker is edge-triggered. For every button of the table, the line
  \<^verbatim>\<open><id>:1\<close> met while the button is not held makes one press call for its key and sets
  it held, and the same line again changes nothing; the line \<^verbatim>\<open><id>:0\<close> met while it is
  held makes one release call and sets it not held, and the same line again changes
  nothing. Any line at all either changes nothing, or makes the one press call of a button
  that was not held and now is, or the one release call of a button that was held and now
  is not.
\<close>

theorem edge_triggered:
  assumes "BUTTON_TO_KEY b = Some k"
  shows
    "(\<not> dict_get (held_keys st) b False \<longrightarrow>
        process_line (b @ chars '':1'') st =
          st\<lparr>keyboard := keyboard st @ [Press k],
             held_keys := AList.update b True (held_keys st)\<rparr> \<and>
        dict_get (held_keys (process_line (b @ chars '':1'') st)) b False \<and>
        process_line (b @ chars '':1'') (process_line (b @ chars '':1'') st) =
          process_line (b @ chars '':1'') st) \<and>
     (dict_get (held_keys st) b False \<longrightarrow>
        process_line (b @ chars '':0'') st =
          st\<lparr>keyboard := keyboard st @ [Release k],
             held_keys := AList.update b False (held_keys st)\<rparr> \<and>
        \<not> dict_get (held_keys (process_line (b @ chars '':0'') st)) b False \<and>
        process_line (b @ chars '':0'') (process_line (b @ chars '':0'') st) =
          process_line (b @ chars '':0'') st) \<and>
     (\<forall>line. process_line line st = st \<or>
        (\<exists>b' k'. BUTTON_TO_KEY b' = Some k' \<and>
           ((\<not> dict_get (held_keys st) b' False \<and>
               process_line line st =
                 st\<lparr>keyboard := keyboard st @ [Press k'],
                    held_keys := AList.update b' True (held_keys st)\<rparr>) \<or>
            (dict_get (held_keys st) b' False \<and>
               process_line line st =
                 st\<lparr>keyboard := keyboard st @ [Release k'],
                    held_keys := AList.update b' False (held_keys st)\<rparr>))))"
proof (intro conjI impI allI)
  assume h: "\<not> dict_get (held_keys st) b False"
  let ?st' = "process_line (b @ chars '':1'') st"
  show 1: "?st' = st\<lparr>keyboard := keyboard st @ [Press k],
                      held_keys := AList.update b True (held_keys st)\<rparr>"
    using h by (simp add: process_line_down[OF assms])
  then show 2: "dict_get (held_keys ?st') b False"
    by (simp add: dict_get_update)
  then show "process_line (b @ chars '':1'') ?st' = ?st'"
    by (simp add: process_line_down[OF assms])
next
  assume h: "dict_get (held_keys st) b False"
  let ?st' = "process_line (b @ chars '':0'') st"
  show 1: "?st' = st\<lparr>keyboard := keyboard st @ [Release k],
                      held_keys := AList.update b False (held_keys st)\<rparr>"
    using h by (simp add: process_line_up[OF assms])
  then show 2: "\<not> dict_get (held_keys ?st') b False"
    by (simp add: dict_get_update)
  then show "process_line (b @ chars '':0'') ?st' = ?st'"
    by (simp add: process_line_up[OF assms])
next
  fix line
  show "process_line line st = st \<or>
        (\<exists>b' k'. BUTTON_TO_KEY b' = Some k' \<and>
           ((\<not> dict_get (held_keys st) b' False \<and>
               process_line line st =
                 st\<lparr>keyboard := keyboard st @ [Press k'],
                    held_keys := AList.update b' True (held_keys st)\<rparr>) \<or>
            (dict_get (held_keys st) b' False \<and>
               process_line line st =
                 st\<lparr>keyboard := keyboard st @ [Release k'],
                    held_keys := AList.update b' False (held_keys st)\<rparr>)))"
    by (rule process_line_cases)
qed

theorem edge_triggered_witness:
  "BUTTON_TO_KEY (chars ''B2'') = Some (chars ''a'') \<and>
   \<not> dict_get (held_keys initial) (chars ''B2'') False \<and>
   process_line (chars ''B2:1'') initial =
     \<lparr>held_keys = [(chars ''B2'', True)], keyboard = [Press (chars ''a'')]\<rparr> \<and>
   process_line (chars ''B2:1'') (process_line (chars ''B2:1'') initial) =
     process_line (chars ''B2:1'') initial \<and>
   dict_get (held_keys (process_line (chars ''B2:1'') initial)) (chars ''B2'') False \<and>
   process_line (chars ''B2:0'') (process_line (chars ''B2:1'') initial) =
     \<lparr>held_keys = [(chars ''B2'', False)],
        keyboard = [Press (chars ''a''), Release (chars ''a'')]\<rparr>"
proof -
  have l: "chars ''B2:1'' = chars ''B2'' @ chars '':1''" "chars ''B2:0'' = chars ''B2'' @ chars '':0''"
    by (simp_all add: chars_def)
  have i: "\<not> dict_get (held_keys initial) (chars ''B2'') False"
    by (simp add: initial_def dict_get_Nil)
  let ?d = "process_line (chars ''B2'' @ chars '':1'')"
  let ?u = "process_line (chars ''B2'' @ chars '':0'')"
  note a = edge_triggered[OF BUTTON_TO_KEY_B2, of initial]
  have a1: "?d initial = initial\<lparr>keyboard := keyboard initial @ [Press (chars ''a'')],
              held_keys := AList.update (chars ''B2'') True (held_keys initial)\<rparr>"
    and 3: "dict_get (held_keys (?d initial)) (chars ''B2'') False"
    and a2: "?d (?d initial) = ?d initial"
    using a i by blast+
  have 1: "process_line (chars ''B2:1'') initial =
     \<lparr>held_keys = [(chars ''B2'', True)], keyboard = [Press (chars ''a'')]\<rparr>"
    unfolding l a1 by (simp add: initial_def)
  have 2: "process_line (chars ''B2:1'') (process_line (chars ''B2:1'') initial) =
     process_line (chars ''B2:1'') initial"
    unfolding l by (rule a2)
  note b = edge_triggered[OF BUTTON_TO_KEY_B2, of "?d initial"]
  have b1: "?u (?d initial) = (?d initial)\<lparr>keyboard := keyboard (?d initial) @ [Release (chars ''a'')],
              held_keys := AList.update (chars ''B2'') False (held_keys (?d initial))\<rparr>"
    using b 3 by blast
  have 4: "process_line (chars ''B2:0'') (process_line (chars ''B2:1'') initial) =
     \<lparr>held_keys = [(chars ''B2'', False)],
        keyboard = [Press (chars ''a''), Release (chars ''a'')]\<rparr>"
    unfolding l b1 unfolding a1 by (simp add: initial_def)
  have h3: "dict_get (held_keys (process_line (chars ''B2:1'') initial)) (chars ''B2'') False"
    unfolding l by (rule 3)
  show ?thesis using BUTTON_TO_KEY_B2 i 1 2 h3 4 by (intro conjI)
qed

lemma to_decimal_ascii:
  "to_decimal 50 = Some 2" "to_decimal 45 = None" "to_decimal 120 = None" "to_decimal 58 = None"
  by (simp_all add: to_decimal_def decimal_zeros_def)

lemma py_int_two: "py_int (chars ''2'') = Some 2"
  by (simp add: py_int_def chars_def int_space_def isspace_def in_number_def underscore_def
      to_decimal_ascii int_max_str_digits_def)

lemma py_int_minus_one: "py_int (chars ''-1'') = Some (- 1)"
  by (simp add: py_int_def chars_def int_space_def isspace_def in_number_def underscore_def
      to_decimal_ascii to_decimal_digit1 int_max_str_digits_def)

lemma py_int_x: "py_int (chars ''x'') = None"
  by (simp add: py_int_def chars_def int_space_def isspace_def in_number_def underscore_def
      to_decimal_ascii int_max_str_digits_def)

lemma str_strip_field_line:
  assumes "str_strip line = b @ 58 # f" "\<not> isspace d"
  shows "str_strip (b @ [58, d]) = b @ [58, d]"
proof -
  have "str_strip line \<noteq> []" using assms(1) by simp
  from str_strip_ends[OF this] have "\<not> isspace (hd (b @ 58 # f))"
    using assms(1) by simp
  then have "\<not> isspace (hd (b @ [58, d]))" by (cases b) simp_all
  with assms(2) show ?thesis by (intro str_strip_id) simp_all
qed

text \<open>
  Claim C3. When the stripped line splits into two fields and \<^verbatim>\<open>int\<close> reads the second one
  as \<open>n\<close>, the pressed flag is true if and only if \<open>n = 1\<close>; the line then acts on the state
  as the line of the same first field with \<^verbatim>\<open>1\<close> does when \<open>n = 1\<close>, and as the one with \<^verbatim>\<open>0\<close>
  does for every other \<open>n\<close>, negative or greater than one.
\<close>

theorem pressed_iff_one:
  assumes "str_split (of_char CHR '':'') (str_strip line) = [b, f]"
    and "py_int f = Some n"
  shows "decode_pressed f = Some (n = 1) \<and>
         process_line line st =
           process_line (b @ (if n = 1 then chars '':1'' else chars '':0'')) st"
proof
  show p: "decode_pressed f = Some (n = 1)"
    using assms(2) by (simp add: decode_pressed_def)
  from assms(1) have s: "str_strip line = b @ 58 # f" and b: "58 \<notin> set b" and f: "58 \<notin> set f"
    using str_split_pair[of 58 "str_strip line" b f] by simp_all
  have 1: "str_strip (b @ chars '':1'') = b @ 58 # [49]"
    using str_strip_field_line[OF s, of 49] by (simp add: chars_def isspace_def)
  have 0: "str_strip (b @ chars '':0'') = b @ 58 # [48]"
    using str_strip_field_line[OF s, of 48] by (simp add: chars_def isspace_def)
  have d1: "decode_pressed [49] = Some True" and d0: "decode_pressed [48] = Some False"
    by (simp_all add: decode_pressed_def py_int_one py_int_zero)
  show "process_line line st =
          process_line (b @ (if n = 1 then chars '':1'' else chars '':0'')) st"
  proof (cases "n = 1")
    case True
    then show ?thesis
      using b p by (simp add: process_line_fields[OF s b f] process_line_fields[OF 1 b] d1)
  next
    case False
    then show ?thesis
      using b p by (simp add: process_line_fields[OF s b f] process_line_fields[OF 0 b] d0)
  qed
qed

lemma chars_split_B1:
  "str_split (of_char CHR '':'') (str_strip (chars ''B1:2'')) = [chars ''B1'', chars ''2'']"
  "str_split (of_char CHR '':'') (str_strip (chars ''B1:-1'')) = [chars ''B1'', chars ''-1'']"
  by (simp_all add: chars_def str_strip_def isspace_def)

theorem pressed_iff_one_witness:
  "str_split (of_char CHR '':'') (str_strip (chars ''B1:2'')) = [chars ''B1'', chars ''2''] \<and>
   py_int (chars ''2'') = Some 2 \<and>
   decode_pressed (chars ''2'') = Some False \<and>
   process_line (chars ''B1:2'') \<lparr>held_keys = [(chars ''B1'', True)], keyboard = []\<rparr> =
     process_line (chars ''B1:0'') \<lparr>held_keys = [(chars ''B1'', True)], keyboard = []\<rparr> \<and>
   str_split (of_char CHR '':'') (str_strip (chars ''B1:-1'')) = [chars ''B1'', chars ''-1''] \<and>
   py_int (chars ''-1'') = Some (- 1) \<and>
   decode_pressed (chars ''-1'') = Some False \<and>
   process_line (chars ''B1:-1'') \<lparr>held_keys = [(chars ''B1'', True)], keyboard = []\<rparr> =
     process_line (chars ''B1:0'') \<lparr>held_keys = [(chars ''B1'', True)], keyboard = []\<rparr>"
proof -
  have l: "chars ''B1:0'' = chars ''B1'' @ chars '':0''" by (simp add: chars_def)
  note a = pressed_iff_one[OF chars_split_B1(1) py_int_two,
      of "\<lparr>held_keys = [(chars ''B1'', True)], keyboard = []\<rparr>"]
  note b = pressed_iff_one[OF chars_split_B1(2) py_int_minus_one,
      of "\<lparr>held_keys = [(chars ''B1'', True)], keyboard = []\<rparr>"]
  show ?thesis
    using a b chars_split_B1 py_int_two py_int_minus_one unfolding l by simp
qed

text \<open>
  Claim C4. A line that is empty once stripped, that does not split into exactly two
  fields at the colons, whose second field \<^verbatim>\<open>int\<close> does not read, or whose first field is no
  key of \<^verbatim>\<open>BUTTON_TO_KEY\<close>, leaves the state as it was: no call on the keyboard, the held
  state unchanged, no exception.
\<close>

theorem malformed_line_dropped:
  assumes "str_strip line = [] \<or>
           length (str_split (of_char CHR '':'') (str_strip line)) \<noteq> 2 \<or>
           (\<exists>b f. str_split (of_char CHR '':'') (str_strip line) = [b, f] \<and>
                  (py_int f = None \<or> BUTTON_TO_KEY b = None))"
  shows "process_line line st = st"
  using assms
  by (auto simp: process_line_def decode_pressed_def Let_def split: list.splits option.splits)

theorem malformed_line_dropped_witness:
  "BUTTON_TO_KEY (chars ''B9'') = None \<and>
   py_int (chars ''x'') = None \<and>
   str_strip (chars ''  '') = [] \<and>
   (let st = \<lparr>held_keys = [(chars ''B1'', True)], keyboard = [Press (chars ''w'')]\<rparr> in
      process_line (chars ''B9:1'') st = st \<and>
      process_line (chars ''B1'') st = st \<and>
      process_line (chars ''B1:1:1'') st = st \<and>
      process_line (chars ''B1:x'') st = st \<and>
      process_line (chars ''  '') st = st)"
proof -
  let ?st = "\<lparr>held_keys = [(chars ''B1'', True)], keyboard = [Press (chars ''w'')]\<rparr>"
  have n: "BUTTON_TO_KEY (chars ''B9'') = None"
    by (simp add: BUTTON_TO_KEY_def chars_def)
  have e: "str_strip (chars ''  '') = []"
    by (simp add: chars_def str_strip_def isspace_def)
  have s: "str_split 58 (str_strip (chars ''B9:1'')) = [chars ''B9'', chars ''1'']"
    "str_split 58 (str_strip (chars ''B1'')) = [chars ''B1'']"
    "str_split 58 (str_strip (chars ''B1:1:1'')) = [chars ''B1'', chars ''1'', chars ''1'']"
    "str_split 58 (str_strip (chars ''B1:x'')) = [chars ''B1'', chars ''x'']"
    by (simp_all add: chars_def str_strip_def isspace_def)
  have 1: "process_line (chars ''B9:1'') ?st = ?st"
    by (rule malformed_line_dropped) (simp add: s n)
  have 2: "process_line (chars ''B1'') ?st = ?st"
    by (rule malformed_line_dropped) (simp add: s)
  have 3: "process_line (chars ''B1:1:1'') ?st = ?st"
    by (rule malformed_line_dropped) (simp add: s)
  have 4: "process_line (chars ''B1:x'') ?st = ?st"
    by (rule malformed_line_dropped) (simp add: s py_int_x)
  have 5: "process_line (chars ''  '') ?st = ?st"
    by (rule malformed_line_dropped) (simp add: e)
  show ?thesis using n py_int_x e 1 2 3 4 5 by (simp only: Let_def)
qed

section \<open>Facts about the decoder\<close>

lemma decode_utf8_ignore_total: "e = Ignore \<Longrightarrow> \<exists>s. decode_utf8 e raw = Inr s"
  by (induction e raw rule: decode_utf8.induct) (auto split: utf8_step.splits)

lemma loop_body_total: "\<exists>st'. loop_body raw st = Inr st'"
  using decode_utf8_ignore_total[of Ignore raw] by (auto simp: loop_body_def Let_def)

lemma loop_body_cases:
  "loop_body raw st = Inr st \<or> (\<exists>line. loop_body raw st = Inr (process_line line st))"
proof -
  from decode_utf8_ignore_total[of Ignore raw] obtain s where s: "decode_utf8 Ignore raw = Inr s"
    by blast
  show ?thesis
  proof (cases "raw \<noteq> [] \<and> str_strip s \<noteq> []")
    case True
    then have "loop_body raw st = Inr (process_line (str_strip s) st)"
      by (simp add: loop_body_def s)
    then show ?thesis by blast
  next
    case False
    then have "loop_body raw st = Inr st"
      by (auto simp: loop_body_def s)
    then show ?thesis by blast
  qed
qed

section \<open>Facts about the states the loop reaches\<close>

lemma process_lines_induct:
  assumes "P st" and "\<And>line s. P s \<Longrightarrow> P (process_line line s)"
  shows "P (process_lines ls st)"
  using assms(1) unfolding process_lines_def
  by (induction ls arbitrary: st) (simp_all add: assms(2))

lemma read_loop_induct:
  assumes "P st" and "\<And>line s. P s \<Longrightarrow> P (process_line line s)"
    and "read_loop evs st = Raised x st' \<or> read_loop evs st = Reading st'"
  shows "P st'"
  using assms(1,3)
proof (induction evs arbitrary: st)
  case Nil
  then show ?case by simp
next
  case (Cons ev evs)
  show ?case
  proof (cases ev)
    case (Read raw)
    from loop_body_cases[of raw st] obtain s where s: "loop_body raw st = Inr s" and "P s"
      using Cons.prems(1) assms(2) by auto
    with Cons.IH[of s] Cons.prems(2) Read show ?thesis by simp
  next
    case Interrupt
    with Cons.prems show ?thesis by simp
  next
    case ReadFailure
    with Cons.prems show ?thesis by simp
  qed
qed

lemma read_loop_reads: "\<exists>st'. read_loop (map Read raws) st = Reading st'"
proof (induction raws arbitrary: st)
  case Nil
  show ?case by simp
next
  case (Cons raw raws)
  from loop_body_total[of raw st] obtain s where "loop_body raw st = Inr s" by blast
  with Cons[of s] show ?case by simp
qed

lemma read_loop_append:
  "read_loop (map Read raws) st = Reading st' \<Longrightarrow>
   read_loop (map Read raws @ evs) st = read_loop evs st'"
proof (induction raws arbitrary: st)
  case Nil
  then show ?case by simp
next
  case (Cons raw raws)
  from loop_body_total[of raw st] obtain s where "loop_body raw st = Inr s" by blast
  with Cons show ?case by simp
qed

lemma tracked_initial: "tracked initial"
  by (simp add: tracked_def initial_def)

lemma tracked_update:
  assumes "tracked st" and "BUTTON_TO_KEY b = Some k"
  shows "tracked (st\<lparr>keyboard := kb, held_keys := AList.update b v (held_keys st)\<rparr>)"
proof -
  have "b \<in> dom BUTTON_TO_KEY" using assms(2) by (rule domI)
  with assms(1) show ?thesis by (simp add: tracked_def distinct_update dom_update)
qed

lemma tracked_process_line:
  assumes "tracked st"
  shows "tracked (process_line line st)"
  using process_line_cases[of line st] assms tracked_update[OF assms] by auto

lemma release_if_held_append: "release_if_held kb item = kb @ release_if_held [] item"
  by (cases item) (auto simp: release_if_held_def split: option.splits)

lemma foldl_release_if_held:
  "foldl release_if_held kb items = kb @ concat (map (release_if_held []) items)"
proof (induction items arbitrary: kb)
  case Nil
  show ?case by simp
next
  case (Cons item items)
  show ?case
    by (simp add: Cons[of "release_if_held kb item"])
       (simp add: release_if_held_append[of kb item])
qed

lemma count_released:
  assumes "distinct (map fst items)" and "fst ` set items \<subseteq> dom BUTTON_TO_KEY"
    and "BUTTON_TO_KEY b = Some k"
  shows "count_list (concat (map (release_if_held []) items)) (Release k) =
           (if map_of items b = Some True then 1 else 0)"
  using assms(1,2)
proof (induction items)
  case Nil
  show ?case by simp
next
  case (Cons item items)
  obtain b' h where item: "item = (b', h)" by (cases item)
  with Cons.prems obtain k' where k': "BUTTON_TO_KEY b' = Some k'" by auto
  then have ne: "k' \<noteq> []" by (rule BUTTON_TO_KEY_shape)
  have hd: "release_if_held [] item = (if h then [Release k'] else [])"
    using k' ne by (simp add: release_if_held_def item)
  have IH: "count_list (concat (map (release_if_held []) items)) (Release k) =
              (if map_of items b = Some True then 1 else 0)"
    using Cons by simp
  show ?case
  proof (cases "b' = b")
    case True
    have "release_if_held [] (b, h) = (if h then [Release k] else [])"
      using assms(3) BUTTON_TO_KEY_shape(4)[OF assms(3)] by (simp add: release_if_held_def)
    moreover have "map_of items b = None"
      using Cons.prems(1) True item by (simp add: map_of_eq_None_iff)
    ultimately show ?thesis using IH True by (simp add: item)
  next
    case False
    then have "k' \<noteq> k" using BUTTON_TO_KEY_inj[OF k', of b] assms(3) by auto
    then show ?thesis using IH False by (simp add: hd[unfolded item] item)
  qed
qed

lemma cleanup_releases:
  assumes "tracked st" and "BUTTON_TO_KEY b = Some k" and "dict_get (held_keys st) b False"
  shows "keyboard (cleanup st) = keyboard st @ concat (map (release_if_held []) (held_keys st))"
    and "count_list (concat (map (release_if_held []) (held_keys st))) (Release k) = 1"
proof -
  show "keyboard (cleanup st) = keyboard st @ concat (map (release_if_held []) (held_keys st))"
    by (simp add: cleanup_def foldl_release_if_held)
  have "map_of (held_keys st) b = Some True"
    using assms(3) by (auto simp: dict_get_def split: option.splits)
  with count_released[OF _ _ assms(2), of "held_keys st"] assms(1)
  show "count_list (concat (map (release_if_held []) (held_keys st))) (Release k) = 1"
    by (simp add: tracked_def)
qed

lemma tracked_read_loop:
  "read_loop evs initial = Raised x st \<or> read_loop evs initial = Reading st \<Longrightarrow> tracked st"
  by (rule read_loop_induct[of tracked initial]) (simp_all add: tracked_initial tracked_process_line)

lemma tracked_process_lines: "tracked (process_lines ls initial)"
  by (rule process_lines_induct) (simp_all add: tracked_initial tracked_process_line)

lemma tracked_lookup:
  assumes "tracked st" and "(b, h) \<in> set (held_keys st)"
  shows "\<exists>k. BUTTON_TO_KEY b = Some k \<and> k \<noteq> [] \<and>
             release_if_held kb (b, h) = (if h then kb @ [Release k] else kb)"
proof -
  from assms have "b \<in> dom BUTTON_TO_KEY" by (force simp: tracked_def)
  then obtain k where k: "BUTTON_TO_KEY b = Some k" by blast
  then have "k \<noteq> []" by (rule BUTTON_TO_KEY_shape)
  with k show ?thesis by (simp add: release_if_held_def)
qed

text \<open>
  Claim C9. In every state the program reaches, by lines processed from the empty state
  or by the read loop, every button that stands in \<^verbatim>\<open>held_keys\<close> is a key of
  \<^verbatim>\<open>BUTTON_TO_KEY\<close> with a key symbol that is not empty; so the lookup that the cleanup makes
  for a held button finds the symbol and the release call is made.
\<close>

theorem held_buttons_are_mapped:
  assumes "st = process_lines ls initial \<or> read_loop evs initial = Raised x st \<or>
           read_loop evs initial = Reading st"
    and "(b, h) \<in> set (held_keys st)"
  shows "\<exists>k. BUTTON_TO_KEY b = Some k \<and> k \<noteq> [] \<and>
             release_if_held kb (b, h) = (if h then kb @ [Release k] else kb)"
proof -
  have "tracked st"
    using assms(1) tracked_process_lines[of ls] tracked_read_loop[of evs x st] by blast
  then show ?thesis using assms(2) by (rule tracked_lookup)
qed

theorem held_buttons_are_mapped_witness:
  "(chars ''B2'', True) \<in> set (held_keys (process_lines [chars ''B2:1'', chars ''B9:1''] initial)) \<and>
   (\<exists>k. BUTTON_TO_KEY (chars ''B2'') = Some k \<and> k \<noteq> [] \<and>
        release_if_held [Press k] (chars ''B2'', True) = [Press k, Release k])"
proof -
  let ?st = "process_lines [chars ''B2:1'', chars ''B9:1''] initial"
  have l: "chars ''B2:1'' = chars ''B2'' @ chars '':1''" by (simp add: chars_def)
  have 9: "process_line (chars ''B9:1'') s = s" for s
    by (rule malformed_line_dropped)
       (simp add: chars_def str_strip_def isspace_def BUTTON_TO_KEY_def)
  have m: "(chars ''B2'', True) \<in> set (held_keys ?st)"
    by (simp add: process_lines_def 9 l process_line_down[OF BUTTON_TO_KEY_B2] initial_def
        dict_get_Nil)
  from held_buttons_are_mapped[of ?st "[chars ''B2:1'', chars ''B9:1'']" "[]" KeyboardInterrupt
      "chars ''B2''" True "[Press (chars ''a'')]"] m
  have "\<exists>k. BUTTON_TO_KEY (chars ''B2'') = Some k \<and> k \<noteq> [] \<and>
     release_if_held [Press (chars ''a'')] (chars ''B2'', True) = [Press (chars ''a''), Release k]"
    by simp
  with m BUTTON_TO_KEY_B2 show ?thesis by auto
qed

lemma main_no_port:
  "fst (find_arduino_port (filesystem env)) = None \<Longrightarrow> main env = Exit 1 initial"
  by (cases "find_arduino_port (filesystem env)") (simp add: main_def)

lemma main_open_fails:
  "fst (find_arduino_port (filesystem env)) = Some p \<Longrightarrow> \<not> opens env p \<Longrightarrow>
   main env = Exit 1 initial"
  by (cases "find_arduino_port (filesystem env)") (simp add: main_def)

lemma main_running:
  assumes "fst (find_arduino_port (filesystem env)) = Some p" "p \<noteq> []" "opens env p"
  shows "main env =
    (case read_loop (incoming env) initial of
       Reading st \<Rightarrow> Running st
     | Raised x st \<Rightarrow>
         (case x of KeyboardInterrupt \<Rightarrow> Exit 0 (cleanup st) | _ \<Rightarrow> Exit 1 (cleanup st)))"
  using assms by (cases "find_arduino_port (filesystem env)") (simp add: main_def)

lemma read_loop_trigger:
  assumes "trig = Interrupt \<or> trig = ReadFailure"
  shows "\<exists>st. read_loop (map Read raws) s = Reading st \<and>
          read_loop (map Read raws @ trig # rest) s =
            Raised (if trig = Interrupt then KeyboardInterrupt else SerialException) st"
proof -
  from read_loop_reads[of raws s] obtain st where st: "read_loop (map Read raws) s = Reading st"
    by blast
  from assms have "read_loop (trig # rest) st =
      Raised (if trig = Interrupt then KeyboardInterrupt else SerialException) st"
    by auto
  with st read_loop_append[OF st, of "trig # rest"] show ?thesis by simp
qed

text \<open>
  Claim C1. When the port is found and opened and the loop, after any reads, meets a
  \<^verbatim>\<open>KeyboardInterrupt\<close> or a failure of the read, the process exits with the state the
  cleanup leaves: the cleanup adds calls to those made so far, and for every button held
  in the state at that moment it adds exactly one release call for the key of that button.
\<close>

theorem held_keys_released_on_shutdown:
  assumes "fst (find_arduino_port (filesystem env)) = Some p" and "p \<noteq> []" and "opens env p"
    and "incoming env = map Read raws @ trig # rest"
    and "trig = Interrupt \<or> trig = ReadFailure"
  shows "\<exists>st rel.
           read_loop (map Read raws) initial = Reading st \<and>
           main env = Exit (if trig = Interrupt then 0 else 1) (cleanup st) \<and>
           keyboard (cleanup st) = keyboard st @ rel \<and>
           held_keys (cleanup st) = held_keys st \<and>
           (\<forall>b. dict_get (held_keys st) b False \<longrightarrow>
                (\<exists>k. BUTTON_TO_KEY b = Some k \<and> count_list rel (Release k) = 1))"
proof -
  from read_loop_trigger[OF assms(5), of raws initial rest]
  obtain st where st: "read_loop (map Read raws) initial = Reading st"
    and r: "read_loop (incoming env) initial =
              Raised (if trig = Interrupt then KeyboardInterrupt else SerialException) st"
    unfolding assms(4) by blast
  have t: "tracked st" using st tracked_read_loop[of "map Read raws" KeyboardInterrupt st] by simp
  let ?rel = "concat (map (release_if_held []) (held_keys st))"
  have m: "main env = Exit (if trig = Interrupt then 0 else 1) (cleanup st)"
    using assms(5) by (auto simp: main_running[OF assms(1-3)] r)
  have k: "keyboard (cleanup st) = keyboard st @ ?rel"
    by (simp add: cleanup_def foldl_release_if_held)
  have h: "held_keys (cleanup st) = held_keys st"
    by (simp add: cleanup_def)
  have c: "\<exists>k. BUTTON_TO_KEY b = Some k \<and> count_list ?rel (Release k) = 1"
    if b: "dict_get (held_keys st) b False" for b
  proof -
    from b have "map_of (held_keys st) b = Some True"
      by (auto simp: dict_get_def split: option.splits)
    then have "(b, True) \<in> set (held_keys st)" by (rule map_of_SomeD)
    from tracked_lookup[OF t this, of "[]"] obtain k where k: "BUTTON_TO_KEY b = Some k" by blast
    from cleanup_releases(2)[OF t k b] k show ?thesis by blast
  qed
  from st m k h c show ?thesis by blast
qed

text \<open>
  Claim C6. The process exits with status 1 when the discovery finds no port and when the
  port found does not open, in both cases before any call on the keyboard; it exits with
  status 0 when the loop, after any reads, meets a \<^verbatim>\<open>KeyboardInterrupt\<close>.
\<close>

theorem exit_codes:
  "(fst (find_arduino_port (filesystem env)) = None \<longrightarrow> main env = Exit 1 initial) \<and>
   (\<forall>p. fst (find_arduino_port (filesystem env)) = Some p \<and> \<not> opens env p \<longrightarrow>
        main env = Exit 1 initial) \<and>
   (\<forall>p raws rest.
        fst (find_arduino_port (filesystem env)) = Some p \<and> p \<noteq> [] \<and> opens env p \<and>
        incoming env = map Read raws @ Interrupt # rest \<longrightarrow>
        (\<exists>st. read_loop (map Read raws) initial = Reading st \<and> main env = Exit 0 (cleanup st)))"
proof (intro conjI allI impI)
  assume "fst (find_arduino_port (filesystem env)) = None"
  then show "main env = Exit 1 initial" by (rule main_no_port)
next
  fix p assume "fst (find_arduino_port (filesystem env)) = Some p \<and> \<not> opens env p"
  then show "main env = Exit 1 initial" using main_open_fails by blast
next
  fix p raws rest
  assume a: "fst (find_arduino_port (filesystem env)) = Some p \<and> p \<noteq> [] \<and> opens env p \<and>
        incoming env = map Read raws @ Interrupt # rest"
  from read_loop_trigger[of Interrupt raws initial rest]
  obtain st where st: "read_loop (map Read raws) initial = Reading st"
    and r: "read_loop (incoming env) initial = Raised KeyboardInterrupt st"
    using a by auto
  have "main env = Exit 0 (cleanup st)"
    using a r by (simp add: main_running[of env p])
  with st show "\<exists>st. read_loop (map Read raws) initial = Reading st \<and> main env = Exit 0 (cleanup st)"
    by blast
qed

lemma patterns_differ: "usbmodem \<noteq> usbserial"
  by (simp add: usbmodem_def usbserial_def chars_def)

lemma find_arduino_port_eq:
  "find_arduino_port h =
     (if glob h usbmodem \<noteq> [] then
        (Some (hd (glob h usbmodem)), h\<lparr>scanned := scanned h @ [usbmodem]\<rparr>)
      else if glob h usbserial \<noteq> [] then
        (Some (hd (glob h usbserial)), h\<lparr>scanned := scanned h @ [usbmodem, usbserial]\<rparr>)
      else (None, h\<lparr>scanned := scanned h @ [usbmodem, usbserial]\<rparr>))"
  by (simp add: find_arduino_port_def glob_glob_def split: list.splits)

lemma loop_body_B2_down:
  "loop_body [0x42, 0x32, 0x3A, 0x31, 0x0A] initial =
     Inr \<lparr>held_keys = [(chars ''B2'', True)], keyboard = [Press (chars ''a'')]\<rparr>"
proof -
  have d: "decode_utf8 Ignore [0x42, 0x32, 0x3A, 0x31, 0x0A] = Inr (chars ''B2:1'' @ [10])"
    by (simp add: utf8_first_def chars_def)
  have s: "str_strip (chars ''B2:1'' @ [10]) = chars ''B2'' @ chars '':1''"
    by (simp add: chars_def str_strip_def isspace_def)
  show ?thesis
    unfolding loop_body_def d
    using BUTTON_TO_KEY_shape(2)[OF BUTTON_TO_KEY_B2]
    by (simp add: s process_line_down[OF BUTTON_TO_KEY_B2] initial_def dict_get_Nil)
qed

theorem held_keys_released_on_shutdown_witness:
  "(let env = \<lparr>filesystem = \<lparr>glob = (\<lambda>pat. if pat = usbmodem then [chars ''/dev/cu.usbmodem1101''] else []),
                               scanned = []\<rparr>,
               opens = (\<lambda>p. True),
               incoming = map Read [[0x42, 0x32, 0x3A, 0x31, 0x0A]] @ ReadFailure # []\<rparr>;
        st = \<lparr>held_keys = [(chars ''B2'', True)], keyboard = [Press (chars ''a'')]\<rparr>
    in fst (find_arduino_port (filesystem env)) = Some (chars ''/dev/cu.usbmodem1101'') \<and>
       opens env (chars ''/dev/cu.usbmodem1101'') \<and>
       read_loop (map Read [[0x42, 0x32, 0x3A, 0x31, 0x0A]]) initial = Reading st \<and>
       dict_get (held_keys st) (chars ''B2'') False \<and>
       main env = Exit 1 (cleanup st) \<and>
       (\<exists>rel. keyboard (cleanup st) = keyboard st @ rel \<and>
              count_list rel (Release (chars ''a'')) = 1))"
proof -
  let ?env = "\<lparr>filesystem = \<lparr>glob = (\<lambda>pat. if pat = usbmodem then [chars ''/dev/cu.usbmodem1101''] else []),
                               scanned = []\<rparr>,
               opens = (\<lambda>p. True),
               incoming = map Read [[0x42, 0x32, 0x3A, 0x31, 0x0A]] @ ReadFailure # []\<rparr>"
  let ?st = "\<lparr>held_keys = [(chars ''B2'', True)], keyboard = [Press (chars ''a'')]\<rparr>"
  have f: "fst (find_arduino_port (filesystem ?env)) = Some (chars ''/dev/cu.usbmodem1101'')"
    by (simp add: find_arduino_port_eq)
  have p: "chars ''/dev/cu.usbmodem1101'' \<noteq> []" by (simp add: chars_def)
  have o: "opens ?env (chars ''/dev/cu.usbmodem1101'')" by simp
  have i: "incoming ?env = map Read [[0x42, 0x32, 0x3A, 0x31, 0x0A]] @ ReadFailure # []" by simp
  have r: "read_loop (map Read [[0x42, 0x32, 0x3A, 0x31, 0x0A]]) initial = Reading ?st"
    by (simp add: loop_body_B2_down)
  have h: "dict_get (held_keys ?st) (chars ''B2'') False" by (simp add: dict_get_Cons)
  from held_keys_released_on_shutdown[OF f p o i] obtain st rel
    where 1: "read_loop (map Read [[0x42, 0x32, 0x3A, 0x31, 0x0A]]) initial = Reading st"
      and 2: "main ?env = Exit 1 (cleanup st)"
      and 3: "keyboard (cleanup st) = keyboard st @ rel"
      and 4: "\<forall>b. dict_get (held_keys st) b False \<longrightarrow>
                (\<exists>k. BUTTON_TO_KEY b = Some k \<and> count_list rel (Release k) = 1)"
    by auto
  from 1 r have st: "st = ?st" by simp
  from 4 h st BUTTON_TO_KEY_B2 have 5: "count_list rel (Release (chars ''a'')) = 1" by auto
  from 3 5 st have 6: "\<exists>rel. keyboard (cleanup ?st) = keyboard ?st @ rel \<and>
              count_list rel (Release (chars ''a'')) = 1" by blast
  from f o r h 2 6 show ?thesis unfolding Let_def st by blast
qed

theorem exit_codes_witness:
  "main \<lparr>filesystem = \<lparr>glob = (\<lambda>pat. []), scanned = []\<rparr>, opens = (\<lambda>p. True),
         incoming = [Interrupt]\<rparr> = Exit 1 initial \<and>
   main \<lparr>filesystem = \<lparr>glob = (\<lambda>pat. if pat = usbserial then [chars ''/dev/cu.usbserial-10''] else []),
                        scanned = []\<rparr>,
         opens = (\<lambda>p. False), incoming = [Interrupt]\<rparr> = Exit 1 initial \<and>
   main \<lparr>filesystem = \<lparr>glob = (\<lambda>pat. if pat = usbserial then [chars ''/dev/cu.usbserial-10''] else []),
                        scanned = []\<rparr>,
         opens = (\<lambda>p. True),
         incoming = [Read [0x42, 0x32, 0x3A, 0x31, 0x0A], Interrupt]\<rparr> =
     Exit 0 \<lparr>held_keys = [(chars ''B2'', True)],
             keyboard = [Press (chars ''a''), Release (chars ''a'')]\<rparr>"
proof -
  let ?none = "\<lparr>glob = (\<lambda>pat. []), scanned = []\<rparr>"
  let ?fs = "\<lparr>glob = (\<lambda>pat. if pat = usbserial then [chars ''/dev/cu.usbserial-10''] else []),
              scanned = []\<rparr>"
  let ?e1 = "\<lparr>filesystem = ?none, opens = (\<lambda>p. True), incoming = [Interrupt]\<rparr>"
  let ?e2 = "\<lparr>filesystem = ?fs, opens = (\<lambda>p. False), incoming = [Interrupt]\<rparr>"
  let ?e3 = "\<lparr>filesystem = ?fs, opens = (\<lambda>p. True),
              incoming = [Read [0x42, 0x32, 0x3A, 0x31, 0x0A], Interrupt]\<rparr>"
  let ?st = "\<lparr>held_keys = [(chars ''B2'', True)], keyboard = [Press (chars ''a'')]\<rparr>"
  have n: "fst (find_arduino_port ?none) = None"
    by (simp add: find_arduino_port_eq)
  have f: "fst (find_arduino_port ?fs) = Some (chars ''/dev/cu.usbserial-10'')"
    using patterns_differ by (simp add: find_arduino_port_eq)
  have p: "chars ''/dev/cu.usbserial-10'' \<noteq> []" by (simp add: chars_def)
  have 1: "main ?e1 = Exit 1 initial"
    using exit_codes[of ?e1] n by simp
  have 2: "main ?e2 = Exit 1 initial"
    using exit_codes[of ?e2] f by simp
  have r: "read_loop (map Read [[0x42, 0x32, 0x3A, 0x31, 0x0A]]) initial = Reading ?st"
    by (simp add: loop_body_B2_down)
  have i: "incoming ?e3 = map Read [[0x42, 0x32, 0x3A, 0x31, 0x0A]] @ Interrupt # []" by simp
  from exit_codes[of ?e3] f p i
  have "\<exists>st. read_loop (map Read [[0x42, 0x32, 0x3A, 0x31, 0x0A]]) initial = Reading st \<and>
             main ?e3 = Exit 0 (cleanup st)"
    by (metis surroundings.select_convs(1,2))
  with r have "main ?e3 = Exit 0 (cleanup ?st)" by simp
  moreover have "cleanup ?st = \<lparr>held_keys = [(chars ''B2'', True)],
             keyboard = [Press (chars ''a''), Release (chars ''a'')]\<rparr>"
    using BUTTON_TO_KEY_B2 BUTTON_TO_KEY_shape(4)[OF BUTTON_TO_KEY_B2]
    by (simp add: cleanup_def release_if_held_def)
  ultimately have 3: "main ?e3 = Exit 0 \<lparr>held_keys = [(chars ''B2'', True)],
             keyboard = [Press (chars ''a''), Release (chars ''a'')]\<rparr>" by simp
  from 1 2 3 show ?thesis by blast
qed

text \<open>
  Claim C7. The port locator asks \<^verbatim>\<open>glob\<close> for the USB-modem pattern first and returns its
  first match when there is one, without a second scan; otherwise it asks for the
  USB-serial pattern and returns its first match when there is one; otherwise it returns
  \<^verbatim>\<open>None\<close>. Each pattern is scanned at most once, in that order, and nothing is retried.
\<close>

theorem first_match_of_first_pattern:
  "find_arduino_port h =
     (if glob h usbmodem \<noteq> [] then
        (Some (hd (glob h usbmodem)), h\<lparr>scanned := scanned h @ [usbmodem]\<rparr>)
      else if glob h usbserial \<noteq> [] then
        (Some (hd (glob h usbserial)), h\<lparr>scanned := scanned h @ [usbmodem, usbserial]\<rparr>)
      else (None, h\<lparr>scanned := scanned h @ [usbmodem, usbserial]\<rparr>))"
proof (cases "glob h usbmodem")
  case (Cons c cs)
  then show ?thesis by (simp add: find_arduino_port_def glob_glob_def)
next
  case Nil
  show ?thesis
  proof (cases "glob h usbserial")
    case (Cons c cs)
    with Nil show ?thesis by (simp add: find_arduino_port_def glob_glob_def)
  next
    case no_serial: Nil
    with Nil show ?thesis by (simp add: find_arduino_port_def glob_glob_def)
  qed
qed

text \<open>
  Claim C8. The port the locator returns depends on the filesystem alone: two hosts on
  which \<^verbatim>\<open>glob\<close> answers alike give the same result, the locator leaves the answers of
  \<^verbatim>\<open>glob\<close> as they were, and so a second run right after the first returns what the first
  returned.
\<close>

theorem discovery_deterministic:
  "(glob h' = glob h \<longrightarrow> fst (find_arduino_port h') = fst (find_arduino_port h)) \<and>
   glob (snd (find_arduino_port h)) = glob h \<and>
   fst (find_arduino_port (snd (find_arduino_port h))) = fst (find_arduino_port h)"
proof (intro conjI impI)
  assume "glob h' = glob h"
  then show "fst (find_arduino_port h') = fst (find_arduino_port h)"
    by (simp add: find_arduino_port_eq)
next
  show "glob (snd (find_arduino_port h)) = glob h"
    by (simp add: find_arduino_port_eq)
next
  show "fst (find_arduino_port (snd (find_arduino_port h))) = fst (find_arduino_port h)"
    by (simp add: find_arduino_port_eq)
qed

theorem discovery_deterministic_witness:
  "(let g = (\<lambda>pat. if pat = usbserial then [chars ''/dev/cu.usbserial-10''] else []);
        h = \<lparr>glob = g, scanned = []\<rparr>;
        h' = \<lparr>glob = g, scanned = [usbmodem, usbserial]\<rparr>
    in glob h' = glob h \<and>
       fst (find_arduino_port h) = Some (chars ''/dev/cu.usbserial-10'') \<and>
       fst (find_arduino_port h') = Some (chars ''/dev/cu.usbserial-10'') \<and>
       snd (find_arduino_port h) = h')"
proof -
  let ?g = "\<lambda>pat. if pat = usbserial then [chars ''/dev/cu.usbserial-10''] else []"
  let ?h = "\<lparr>glob = ?g, scanned = []\<rparr>"
  let ?h' = "\<lparr>glob = ?g, scanned = [usbmodem, usbserial]\<rparr>"
  have g: "glob ?h' = glob ?h" by simp
  have f: "fst (find_arduino_port ?h) = Some (chars ''/dev/cu.usbserial-10'')"
    using patterns_differ by (simp add: find_arduino_port_eq)
  have s: "snd (find_arduino_port ?h) = ?h'"
    using patterns_differ by (simp add: find_arduino_port_eq)
  from discovery_deterministic[of ?h' ?h] g
  have "fst (find_arduino_port ?h') = fst (find_arduino_port ?h)" by blast
  with f have "fst (find_arduino_port ?h') = Some (chars ''/dev/cu.usbserial-10'')" by simp
  with g f s show ?thesis unfolding Let_def by blast
qed

lemma utf8_first_consumed:
  "utf8_first ch bs = Decoded c k \<Longrightarrow> k \<le> length bs"
  by (auto simp: utf8_first_def split: if_splits list.splits)

lemma utf8_first_prefix:
  "utf8_first ch bs = Decoded c k \<Longrightarrow> utf8_first ch (take k bs @ tail) = Decoded c k"
  by (auto simp: utf8_first_def split: if_splits list.splits)

lemma decode_utf8_well_formed_part:
  "decode_utf8 Ignore raw = decode_utf8 Strict (well_formed_part raw)"
proof (induction raw rule: well_formed_part.induct)
  case 1
  show ?case by simp
next
  case (2 ch bs)
  show ?case
  proof (cases "utf8_first ch bs")
    case (Decoded c k)
    have "length (take k bs) = k" using utf8_first_consumed[OF Decoded] by simp
    then have "drop k (take k bs @ well_formed_part (drop k bs)) = well_formed_part (drop k bs)"
      by (metis append_eq_conv_conj)
    with 2(1)[OF Decoded] utf8_first_prefix[OF Decoded, of "well_formed_part (drop k bs)"] Decoded
    show ?thesis by simp
  next
    case (Malformed k)
    with 2(2)[OF Malformed] show ?thesis by simp
  qed
qed

lemma subseq_well_formed_part: "subseq (well_formed_part raw) raw"
proof (induction raw rule: well_formed_part.induct)
  case 1
  show ?case by simp
next
  case (2 ch bs)
  show ?case
  proof (cases "utf8_first ch bs")
    case (Decoded c k)
    from 2(1)[OF Decoded]
    have "subseq (take k bs @ well_formed_part (drop k bs)) (take k bs @ drop k bs)"
      by (simp only: subseq_append')
    with Decoded show ?thesis by simp
  next
    case (Malformed k)
    from 2(2)[OF Malformed] have "subseq (well_formed_part (drop k bs)) (take k bs @ drop k bs)"
      by (rule subseq_drop_many)
    then have "subseq (well_formed_part (drop k bs)) ([ch] @ bs)"
      by (simp only: append_take_drop_id) (rule subseq_drop_many)
    with Malformed show ?thesis by simp
  qed
qed

lemma decode_utf8_strict_ignore:
  "decode_utf8 Strict raw = Inr s \<Longrightarrow> decode_utf8 Ignore raw = Inr s"
proof (induction raw arbitrary: s rule: well_formed_part.induct)
  case 1
  then show ?case by simp
next
  case (2 ch bs)
  show ?case
  proof (cases "utf8_first ch bs")
    case (Decoded c k)
    with 2(3) obtain t where t: "decode_utf8 Strict (drop k bs) = Inr t" and s: "s = c # t"
      by (auto split: sum.splits)
    from 2(1)[OF Decoded t] Decoded s show ?thesis by simp
  next
    case (Malformed k)
    with 2(3) show ?thesis by simp
  qed
qed

text \<open>
  Claim C10. Decoding the bytes of a read with \<^verbatim>\<open>errors='ignore'\<close> never raises, whatever the
  bytes: the text it yields is the strict decoding of the bytes left once every malformed
  range is taken out, a subsequence of the bytes read, and bytes that are valid UTF-8
  decode as they do strictly. So the body of the loop never raises either: it leaves the
  state alone, or hands the stripped text to \<^verbatim>\<open>process_line\<close>.
\<close>

theorem garbage_bytes_ignored:
  "(\<exists>s. decode_utf8 Ignore raw = Inr s \<and>
        decode_utf8 Strict (well_formed_part raw) = Inr s \<and>
        (loop_body raw st = Inr st \<or> loop_body raw st = Inr (process_line (str_strip s) st))) \<and>
   subseq (well_formed_part raw) raw \<and>
   (\<forall>s. decode_utf8 Strict raw = Inr s \<longrightarrow> decode_utf8 Ignore raw = Inr s)"
proof (intro conjI allI impI)
  from decode_utf8_ignore_total[of Ignore raw] obtain s where s: "decode_utf8 Ignore raw = Inr s"
    by blast
  have "loop_body raw st = Inr st \<or> loop_body raw st = Inr (process_line (str_strip s) st)"
    by (auto simp: loop_body_def s Let_def)
  with s decode_utf8_well_formed_part[of raw]
  show "\<exists>s. decode_utf8 Ignore raw = Inr s \<and>
        decode_utf8 Strict (well_formed_part raw) = Inr s \<and>
        (loop_body raw st = Inr st \<or> loop_body raw st = Inr (process_line (str_strip s) st))"
    by auto
next
  show "subseq (well_formed_part raw) raw" by (rule subseq_well_formed_part)
next
  fix s assume "decode_utf8 Strict raw = Inr s"
  then show "decode_utf8 Ignore raw = Inr s" by (rule decode_utf8_strict_ignore)
qed

theorem garbage_bytes_ignored_witness:
  "well_formed_part [0xFF, 0x42, 0x31, 0x3A, 0xFE, 0x31, 0x0A] = [0x42, 0x31, 0x3A, 0x31, 0x0A] \<and>
   decode_utf8 Ignore [0xFF, 0x42, 0x31, 0x3A, 0xFE, 0x31, 0x0A] = Inr (chars ''B1:1'' @ [10]) \<and>
   loop_body [0xFF, 0x42, 0x31, 0x3A, 0xFE, 0x31, 0x0A] initial =
     Inr \<lparr>held_keys = [(chars ''B1'', True)], keyboard = [Press (chars ''w'')]\<rparr> \<and>
   decode_utf8 Strict [0xC3, 0xA9] = Inr [0xE9] \<and>
   decode_utf8 Ignore [0xC3, 0xA9] = Inr [0xE9]"
proof -
  let ?raw = "[0xFF, 0x42, 0x31, 0x3A, 0xFE, 0x31, 0x0A] :: byte list"
  let ?st = "\<lparr>held_keys = [(chars ''B1'', True)], keyboard = [Press (chars ''w'')]\<rparr>"
  have w: "well_formed_part ?raw = [0x42, 0x31, 0x3A, 0x31, 0x0A]"
    by (simp add: utf8_first_def)
  have d: "decode_utf8 Strict [0x42, 0x31, 0x3A, 0x31, 0x0A] = Inr (chars ''B1:1'' @ [10])"
    by (simp add: utf8_first_def chars_def)
  have e: "decode_utf8 Strict [0xC3, 0xA9] = Inr [0xE9]"
    by (simp add: utf8_first_def continuation_def low6_def)
  have q: "str_strip (chars ''B1:1'' @ [10]) = chars ''B1'' @ chars '':1''"
    by (simp add: chars_def str_strip_def isspace_def)
  have p: "process_line (chars ''B1'' @ chars '':1'') initial = ?st"
    by (simp add: process_line_down[OF BUTTON_TO_KEY_B1] initial_def dict_get_Nil)
  have n: "?st \<noteq> initial" by (simp add: initial_def)
  note t = garbage_bytes_ignored[of ?raw initial]
  from t obtain s where 1: "decode_utf8 Ignore ?raw = Inr s"
    and 2: "decode_utf8 Strict (well_formed_part ?raw) = Inr s"
    and 3: "loop_body ?raw initial = Inr initial \<or>
            loop_body ?raw initial = Inr (process_line (str_strip s) initial)"
    by blast
  from 2 have s: "s = chars ''B1:1'' @ [10]" unfolding w d by simp
  have 4: "loop_body ?raw initial = Inr ?st"
    unfolding loop_body_def 1 s
    using BUTTON_TO_KEY_shape(2)[OF BUTTON_TO_KEY_B1] by (simp add: q p)
  from garbage_bytes_ignored[of "[0xC3, 0xA9]" initial] e
  have 5: "decode_utf8 Ignore [0xC3, 0xA9] = Inr [0xE9]" by blast
  from w 1 4 e 5 show ?thesis unfolding s by blast
qed

end
